theory Spec2Isabelle
  imports Main
begin

section \<open>Python values used by \<open>DataCollector.py\<close>\<close>

text \<open>
  Python strings are modelled as \<open>string\<close>, one \<open>char\<close> per code point (code points
  below 256). A function that can raise returns \<open>error + 'a\<close>, with \<open>Inl\<close> for the
  exception; a function that returns \<open>None\<close> or a value returns an \<open>option\<close>.
\<close>

datatype error = ParseError | AttributeError | ValueError | IndexError

subsection \<open>\<open>str.split(sep)\<close> with a one-character separator\<close>

text \<open>
  \<open>s.split(sep)\<close> cuts \<open>s\<close> at every occurrence of \<open>sep\<close> and always returns at least
  one piece (\<open>"".split("_") == [""]\<close>).
\<close>

fun split :: "char \<Rightarrow> string \<Rightarrow> string list" where
  "split sep [] = [[]]"
| "split sep (c # cs) =
     (if c = sep then [] # split sep cs
      else (let r = split sep cs in (c # hd r) # tl r))"

text \<open>List indexing \<open>xs[i]\<close> for \<open>i \<ge> 0\<close>: out of range raises \<open>IndexError\<close>.\<close>

definition getitem :: "'a list \<Rightarrow> nat \<Rightarrow> error + 'a" where
  "getitem xs i = (if i < length xs then Inr (xs ! i) else Inl IndexError)"

section \<open>The regular expression \<open>RE_GITHUB_URL\<close>\<close>

text \<open>
  The fragment of Python's \<open>re\<close> syntax that the pattern
  \<^verbatim>\<open>https://github\.com/(?P<user>[^/]+)/(?P<repo>.+?)(\.git)?\<close>
  uses: literal text, the one-or-more repetition of a character class, greedy (\<open>+\<close>) and
  lazy (\<open>+?\<close>), an optional sub-pattern (\<open>?\<close>, greedy), capturing groups and
  concatenation. The classes are \<open>.\<close> (any character but a newline, no \<open>DOTALL\<close> flag)
  and \<open>[^c]\<close> (any character but \<open>c\<close>, newline included).
\<close>

datatype cclass = Dot | NotChar char

fun cmatches :: "cclass \<Rightarrow> char \<Rightarrow> bool" where
  "cmatches Dot c = (c \<noteq> CHR 0x0A)"
| "cmatches (NotChar x) c = (c \<noteq> x)"

datatype regex =
    Lit string
  | PlusGreedy cclass
  | PlusLazy cclass
  | Opt regex
  | Group string regex
  | Seq regex regex

text \<open>
  A state of the matcher is the input still to be read and the groups captured so far.
  \<open>rmatch r st\<close> lists the states in which \<open>r\<close> can end when started in \<open>st\<close>, in the
  order in which the backtracking matcher tries them: a greedy repetition tries the longest
  run first, a lazy one the shortest, an optional sub-pattern is tried before it is skipped.
\<close>

type_synonym groups = "string \<rightharpoonup> string"
type_synonym mstate = "string \<times> groups"

fun plus_rests :: "cclass \<Rightarrow> string \<Rightarrow> string list" where
  "plus_rests k [] = []"
| "plus_rests k (c # cs) = (if cmatches k c then cs # plus_rests k cs else [])"

fun rmatch :: "regex \<Rightarrow> mstate \<Rightarrow> mstate list" where
  "rmatch (Lit l) (s, g) =
     (if take (length l) s = l then [(drop (length l) s, g)] else [])"
| "rmatch (PlusGreedy k) (s, g) = map (\<lambda>r. (r, g)) (rev (plus_rests k s))"
| "rmatch (PlusLazy k) (s, g) = map (\<lambda>r. (r, g)) (plus_rests k s)"
| "rmatch (Opt r) (s, g) = rmatch r (s, g) @ [(s, g)]"
| "rmatch (Group n r) (s, g) =
     map (\<lambda>(s', g'). (s', g'(n \<mapsto> take (length s - length s') s))) (rmatch r (s, g))"
| "rmatch (Seq r1 r2) (s, g) = concat (map (rmatch r2) (rmatch r1 (s, g)))"

text \<open>
  \<open>pattern.fullmatch(s)\<close>: the first way of matching, in backtracking order, that
  consumes the whole of \<open>s\<close>; \<open>None\<close> when there is none. The match object is modelled
  by its groups, and \<open>m.group(name)\<close> by the lookup \<open>m name\<close>.
\<close>

definition fullmatch :: "regex \<Rightarrow> string \<Rightarrow> groups option" where
  "fullmatch r s = map_option snd (find (\<lambda>st. fst st = []) (rmatch r (s, Map.empty)))"

definition RE_GITHUB_URL :: regex where
  "RE_GITHUB_URL =
     Seq (Lit ''https://github.com/'')
       (Seq (Group ''user'' (PlusGreedy (NotChar CHR ''/'')))
         (Seq (Lit ''/'')
           (Seq (Group ''repo'' (PlusLazy Dot))
             (Opt (Group ''3'' (Lit ''.git''))))))"

section \<open>\<open>parse_repo_name\<close> and \<open>parse_github_url\<close>\<close>

definition parse_repo_name :: "string \<Rightarrow> error + string" where
  "parse_repo_name project_name =
     (case getitem (split CHR ''_'' project_name) 0 of
        Inl e \<Rightarrow> Inl e
      | Inr github_user_name \<Rightarrow>
          (case getitem (split CHR ''_'' project_name) 1 of
             Inl e \<Rightarrow> Inl e
           | Inr github_project_name \<Rightarrow>
               Inr (''https://github.com/'' @ github_user_name @ ''/''
                      @ github_project_name @ ''.git'')))"

definition parse_github_url :: "string \<Rightarrow> (string option \<times> string option) option" where
  "parse_github_url github_url =
     (case fullmatch RE_GITHUB_URL github_url of
        None \<Rightarrow> None
      | Some m \<Rightarrow> Some (m ''user'', m ''repo''))"

text \<open>
  The value of the \<open>repo\<close> group as a function of the text \<open>t\<close> that follows
  \<open>https://github.com/<user>/\<close>: one trailing \<open>.git\<close> is left to the optional group
  when something remains in front of it.
\<close>

definition strip_git :: "string \<Rightarrow> string" where
  "strip_git t =
     (if 4 < length t \<and> drop (length t - 4) t = ''.git'' then take (length t - 4) t else t)"

section \<open>\<open>int(str)\<close>\<close>

text \<open>
  \<open>int(s)\<close> on a string, in base 10, after CPython: white space around the number is
  skipped, one sign is allowed, and the digits may be separated by single underscores; anything
  else raises \<open>ValueError\<close>. (The interpreter's optional limit on the number of digits is
  not modelled.)
\<close>

definition py_isspace :: "char \<Rightarrow> bool" where
  "py_isspace c \<longleftrightarrow>
     c \<in> set [CHR 0x09, CHR 0x0A, CHR 0x0B, CHR 0x0C, CHR 0x0D, CHR 0x20, CHR 0x85, CHR 0xA0]"

definition py_isdigit :: "char \<Rightarrow> bool" where
  "py_isdigit c \<longleftrightarrow> 48 \<le> (of_char c :: nat) \<and> (of_char c :: nat) \<le> 57"

definition digit_value :: "char \<Rightarrow> nat" where
  "digit_value c = of_char c - 48"

fun double_underscore :: "string \<Rightarrow> bool" where
  "double_underscore (a # b # cs) =
     ((a = CHR ''_'' \<and> b = CHR ''_'') \<or> double_underscore (b # cs))"
| "double_underscore _ = False"

definition py_int :: "string \<Rightarrow> error + int" where
  "py_int s =
     (let s1 = dropWhile py_isspace s;
          neg = (s1 \<noteq> [] \<and> hd s1 = CHR ''-'');
          s2 = (if s1 \<noteq> [] \<and> (hd s1 = CHR ''+'' \<or> hd s1 = CHR ''-'') then tl s1 else s1);
          body = takeWhile (\<lambda>c. py_isdigit c \<or> c = CHR ''_'') s2;
          rest = dropWhile (\<lambda>c. py_isdigit c \<or> c = CHR ''_'') s2
      in if body = [] \<or> hd body = CHR ''_'' \<or> last body = CHR ''_'' \<or> double_underscore body
            \<or> \<not> list_all py_isspace rest
         then Inl ValueError
         else (let n = int (foldl (\<lambda>a c. 10 * a + digit_value c) 0 (filter py_isdigit body))
               in Inr (if neg then - n else n)))"

section \<open>The POM document\<close>

text \<open>
  An \<open>xml.etree.ElementTree\<close> element: its tag (a qualified name \<open>{uri}local\<close>), its
  text (\<open>None\<close> for an element without character data before its first child) and its
  children in document order. Attributes and tails are not read by \<open>check_junit\<close>.
\<close>

datatype element = Element (tag: string) (elem_text: "string option") (children: "element list")

text \<open>
  The tag that a path step \<open>xmlns:local\<close> stands for under
  \<open>namespaces = {'xmlns': 'http://maven.apache.org/POM/4.0.0'}\<close>.
\<close>

definition xmlns :: "string \<Rightarrow> string" where
  "xmlns local = ''{http://maven.apache.org/POM/4.0.0}'' @ local"

text \<open>\<open>e.find("xmlns:local", namespaces)\<close>: the first child with that tag, or \<open>None\<close>.\<close>

definition find_child :: "string \<Rightarrow> element \<Rightarrow> element option" where
  "find_child local e = find (\<lambda>c. tag c = xmlns local) (children e)"

text \<open>
  \<open>e.iter()\<close> is the element and its descendants in document order;
  \<open>root.findall(".//xmlns:local", namespaces)\<close> lists the descendants of the root
  (the root itself excluded) that carry the tag, in document order.
\<close>

fun iter :: "element \<Rightarrow> element list" where
  "iter (Element t x cs) = Element t x cs # concat (map iter cs)"

definition findall_descendants :: "string \<Rightarrow> element \<Rightarrow> element list" where
  "findall_descendants local root =
     filter (\<lambda>e. tag e = xmlns local) (concat (map iter (children root)))"

section \<open>\<open>check_junit\<close>\<close>

text \<open>
  The predicate table \<open>REQUIREMENTS\<close> maps an artifact identifier to a predicate on the
  major-version token. The class attribute is read through \<open>cls\<close>, so the table is an
  argument of the model of \<open>check_junit\<close>; the table of \<open>DataCollector\<close> itself has the
  one key \<open>junit\<close> with \<open>lambda v: int(v) == 4\<close>.
\<close>

type_synonym requirements = "string \<rightharpoonup> (string \<Rightarrow> error + bool)"

definition REQUIREMENTS :: requirements where
  "REQUIREMENTS =
     [''junit'' \<mapsto> (\<lambda>v. case py_int v of Inl e \<Rightarrow> Inl e | Inr n \<Rightarrow> Inr (n = 4))]"

text \<open>
  \<open>artifact_id in cls.REQUIREMENTS.keys()\<close> followed by \<open>cls.REQUIREMENTS[artifact_id]\<close>;
  \<open>artifact_id\<close> is \<open>None\<close> when the element has no text, and \<open>None\<close> is no key.
\<close>

definition requirement :: "requirements \<Rightarrow> string option \<Rightarrow> (string \<Rightarrow> error + bool) option" where
  "requirement reqs artifact_id = (case artifact_id of None \<Rightarrow> None | Some k \<Rightarrow> reqs k)"

text \<open>
  The loop over \<open>deps\<close>. Reading \<open>.text\<close> of a child that \<open>find\<close> did not find, and
  \<open>.split\<close> of a text that is \<open>None\<close>, raise \<open>AttributeError\<close>.
\<close>

fun check_deps :: "requirements \<Rightarrow> element list \<Rightarrow> error + bool" where
  "check_deps reqs [] = Inr False"
| "check_deps reqs (d # ds) =
     (case find_child ''artifactId'' d of
        None \<Rightarrow> Inl AttributeError
      | Some a \<Rightarrow>
          (case requirement reqs (elem_text a) of
             None \<Rightarrow> check_deps reqs ds
           | Some p \<Rightarrow>
               (case find_child ''version'' d of
                  None \<Rightarrow> Inl AttributeError
                | Some v \<Rightarrow>
                    (case elem_text v of
                       None \<Rightarrow> Inl AttributeError
                     | Some vt \<Rightarrow>
                         (case getitem (split CHR ''.'' vt) 0 of
                            Inl e \<Rightarrow> Inl e
                          | Inr version \<Rightarrow>
                              (case p version of
                                 Inl e \<Rightarrow> Inl e
                               | Inr b \<Rightarrow> if b then Inr True else Inr False))))))"

text \<open>
  \<open>check_junit\<close> takes the outcome of \<open>ElementTree.parse(pom_file)\<close>: the root element, or
  the exception that the parser raised on a malformed document.
\<close>

definition check_junit :: "requirements \<Rightarrow> error + element \<Rightarrow> error + bool" where
  "check_junit reqs parsed =
     (case parsed of
        Inl e \<Rightarrow> Inl e
      | Inr root \<Rightarrow> check_deps reqs (findall_descendants ''dependency'' root))"

text \<open>Documents used as examples: a project with the given dependencies.\<close>

definition dependency :: "string \<Rightarrow> string \<Rightarrow> element" where
  "dependency a v =
     Element (xmlns ''dependency'') None
       [Element (xmlns ''groupId'') (Some ''org.example'') [],
        Element (xmlns ''artifactId'') (Some a) [],
        Element (xmlns ''version'') (Some v) []]"

definition project :: "element list \<Rightarrow> element" where
  "project deps =
     Element (xmlns ''project'') None
       [Element (xmlns ''modelVersion'') (Some ''4.0.0'') [],
        Element (xmlns ''dependencies'') None deps]"

text \<open>
  Vocabulary for the claims about the loop. For one dependency element:
  \<open>artifact_requirement\<close> is the predicate that its artifact identifier selects in the
  table, if any; \<open>passed_over\<close> says that the loop goes on to the next dependency (there is
  an \<open>artifactId\<close> child and its text is no key); \<open>version_text\<close> is the text of its
  \<open>version\<close> child, \<open>None\<close> when the child or its text is absent.
\<close>

definition artifact_requirement :: "requirements \<Rightarrow> element \<Rightarrow> (string \<Rightarrow> error + bool) option" where
  "artifact_requirement reqs d =
     (case find_child ''artifactId'' d of
        None \<Rightarrow> None
      | Some a \<Rightarrow> requirement reqs (elem_text a))"

definition passed_over :: "requirements \<Rightarrow> element \<Rightarrow> bool" where
  "passed_over reqs d =
     (case find_child ''artifactId'' d of
        None \<Rightarrow> False
      | Some a \<Rightarrow> requirement reqs (elem_text a) = None)"

definition version_text :: "element \<Rightarrow> string option" where
  "version_text d =
     (case find_child ''version'' d of
        None \<Rightarrow> None
      | Some v \<Rightarrow> elem_text v)"

text \<open>A dependency element without a \<open>version\<close> child, for the examples.\<close>

definition dependency_without_version :: "string \<Rightarrow> element" where
  "dependency_without_version a =
     Element (xmlns ''dependency'') None
       [Element (xmlns ''groupId'') (Some ''org.example'') [],
        Element (xmlns ''artifactId'') (Some a) []]"

section \<open>Lemmas about the backtracking matcher and \<open>split\<close>\<close>

subsection \<open>Repetitions and the first full match\<close>

lemma plus_rests_upt:
  "plus_rests k s = map (\<lambda>n. drop n s) [1..<Suc (length (takeWhile (cmatches k) s))]"
proof (induction s)
  case Nil
  show ?case by simp
next
  case (Cons c cs)
  show ?case
  proof (cases "cmatches k c")
    case False
    then show ?thesis by simp
  next
    case True
    let ?m = "length (takeWhile (cmatches k) cs)"
    have "[1..<Suc (Suc ?m)] = 1 # map Suc [1..<Suc ?m]"
      by (simp add: upt_conv_Cons map_Suc_upt del: upt_Suc)
    then show ?thesis using True Cons.IH
      by (simp add: comp_def del: upt_Suc)
  qed
qed

lemma find_concat_map_None:
  "(\<And>a. a \<in> set xs \<Longrightarrow> find P (F a) = None) \<Longrightarrow> find P (concat (map F xs)) = None"
  by (induction xs) (auto simp: find_None_iff)

lemma find_append_None: "find P xs = None \<Longrightarrow> find P (xs @ ys) = find P ys"
  by (induction xs) (auto split: if_splits)

lemma find_append_Some: "find P xs = Some y \<Longrightarrow> find P (xs @ ys) = Some y"
  by (induction xs) (auto split: if_splits)

lemma find_concat_map_first:
  assumes "\<And>a. a \<in> set as \<Longrightarrow> find P (F a) = None" and "find P (F b) = Some y"
  shows "find P (concat (map F (as @ b # cs))) = Some y"
  using assms
  by (simp add: find_append_None find_concat_map_None find_append_Some)

lemma rmatch_Group_Plus:
  "rmatch (Group n (PlusLazy k)) (s, g) =
     map (\<lambda>i. (drop i s, g(n \<mapsto> take i s))) [1..<Suc (length (takeWhile (cmatches k) s))]"
  "rmatch (Group n (PlusGreedy k)) (s, g) =
     map (\<lambda>i. (drop i s, g(n \<mapsto> take i s))) (rev [1..<Suc (length (takeWhile (cmatches k) s))])"
proof -
  let ?m = "length (takeWhile (cmatches k) s)"
  have le: "?m \<le> length s" by (rule length_takeWhile_le)
  have cap: "take (length s - length (drop i s)) s = take i s" if "i \<in> set [1..<Suc ?m]" for i
  proof -
    from that le have "i \<le> length s" by auto
    then have "length s - (length s - i) = i" by arith
    then show ?thesis by simp
  qed
  show "rmatch (Group n (PlusLazy k)) (s, g) =
     map (\<lambda>i. (drop i s, g(n \<mapsto> take i s))) [1..<Suc ?m]"
    using cap by (simp add: plus_rests_upt comp_def del: upt_Suc)
  show "rmatch (Group n (PlusGreedy k)) (s, g) =
     map (\<lambda>i. (drop i s, g(n \<mapsto> take i s))) (rev [1..<Suc ?m])"
    using cap by (simp add: plus_rests_upt comp_def rev_map del: upt_Suc)
qed

subsection \<open>The \<open>user\<close> group up to the slash\<close>

lemma rmatch_Seq_Lit1:
  "rmatch (Seq (Lit [c]) r) (s, g) =
     (case s of [] \<Rightarrow> [] | x # xs \<Rightarrow> if x = c then rmatch r (xs, g) else [])"
  by (cases s) auto

lemma user_step:
  "rmatch (Seq (Group n (PlusGreedy (NotChar c))) (Seq (Lit [c]) r)) (s, g) =
     (let m = length (takeWhile (\<lambda>x. x \<noteq> c) s)
      in if 0 < m \<and> m < length s then rmatch r (drop (Suc m) s, g(n \<mapsto> take m s)) else [])"
proof -
  let ?m = "length (takeWhile (\<lambda>x. x \<noteq> c) s)"
  let ?F = "\<lambda>i. rmatch (Seq (Lit [c]) r) (drop i s, g(n \<mapsto> take i s))"
  have cm: "cmatches (NotChar c) = (\<lambda>x. x \<noteq> c)" by (rule ext) simp
  have all: "rmatch (Seq (Group n (PlusGreedy (NotChar c))) (Seq (Lit [c]) r)) (s, g)
               = concat (map ?F (rev [1..<Suc ?m]))"
    by (simp only: rmatch.simps(6) rmatch_Group_Plus cm map_map comp_def)
  have short: "?F i = []" if "i < ?m" for i
  proof -
    from that have "s ! i \<noteq> c" "i < length s"
      using nth_mem [of i "takeWhile (\<lambda>x. x \<noteq> c) s"] takeWhile_nth [of i "\<lambda>x. x \<noteq> c" s]
            length_takeWhile_le [of "\<lambda>x. x \<noteq> c" s]
      by (auto dest: set_takeWhileD)
    then have "drop i s = s ! i # drop (Suc i) s" by (simp add: Cons_nth_drop_Suc)
    with \<open>s ! i \<noteq> c\<close> show ?thesis by (simp only: rmatch_Seq_Lit1 list.case if_False)
  qed
  show ?thesis
  proof (cases "0 < ?m")
    case False
    then show ?thesis using all by simp
  next
    case True
    then have "[1..<Suc ?m] = [1..<?m] @ [?m]" by (intro upt_Suc_append) arith
    then have "rev [1..<Suc ?m] = ?m # rev [1..<?m]" by (simp del: upt_Suc)
    moreover have "concat (map ?F (rev [1..<?m])) = []"
      using short by (simp del: rmatch.simps)
    ultimately have eq: "rmatch (Seq (Group n (PlusGreedy (NotChar c))) (Seq (Lit [c]) r)) (s, g) = ?F ?m"
      using all by (simp del: rmatch.simps upt_Suc)
    show ?thesis
    proof (cases "?m < length s")
      case False
      then have "drop ?m s = []" by simp
      then show ?thesis using eq False by (simp add: rmatch_Seq_Lit1 del: rmatch.simps)
    next
      case lt: True
      then have "s ! ?m = c" using nth_length_takeWhile [of "\<lambda>x. x \<noteq> c" s] by simp
      moreover have "drop ?m s = s ! ?m # drop (Suc ?m) s" using lt by (simp add: Cons_nth_drop_Suc)
      ultimately show ?thesis using eq lt True
        by (simp add: rmatch_Seq_Lit1 Let_def del: rmatch.simps)
    qed
  qed
qed

subsection \<open>The lazy \<open>repo\<close> group and the optional suffix\<close>

lemma length_takeWhile_less_mem:
  "x \<in> set xs \<Longrightarrow> \<not> P x \<Longrightarrow> length (takeWhile P xs) < length xs"
  by (induction xs) auto

lemma upt_split_at:
  "a \<le> i \<Longrightarrow> i < b \<Longrightarrow> [a..<b] = [a..<i] @ i # [Suc i..<b]"
  using upt_add_eq_append [of a i "b - i"] upt_conv_Cons [of i b] by simp

lemma neq_git_length: "length xs \<noteq> 4 \<Longrightarrow> xs \<noteq> ''.git''"
  by auto

lemma opt_git_find:
  "find (\<lambda>st. fst st = []) (rmatch (Opt (Group n (Lit ''.git''))) (r, g)) =
     (if r = ''.git'' then Some ([], g(n \<mapsto> ''.git''))
      else if r = [] then Some ([], g) else None)"
proof (cases "take 4 r = ''.git''")
  case False
  then have "r \<noteq> ''.git''" by auto
  with False show ?thesis by simp
next
  case True
  show ?thesis
  proof (cases "drop 4 r = []")
    case d: True
    have "r = take 4 r @ drop 4 r" by simp
    with True d have "r = ''.git''" by simp
    then show ?thesis by simp
  next
    case d: False
    then have "r \<noteq> ''.git''" "r \<noteq> []" by auto
    with True d show ?thesis by simp
  qed
qed

lemma repo_step:
  "find (\<lambda>st. fst st = [])
     (rmatch (Seq (Group n (PlusLazy Dot)) (Opt (Group n' (Lit ''.git'')))) (t, g)) =
     (if t = [] \<or> CHR 0x0A \<in> set t then None
      else if 4 < length t \<and> drop (length t - 4) t = ''.git''
        then Some ([], g(n \<mapsto> take (length t - 4) t, n' \<mapsto> ''.git''))
      else Some ([], g(n \<mapsto> t)))"
proof -
  let ?P = "\<lambda>st::mstate. fst st = []"
  let ?m = "length (takeWhile (\<lambda>x. x \<noteq> CHR 0x0A) t)"
  let ?F = "\<lambda>i. rmatch (Opt (Group n' (Lit ''.git''))) (drop i t, g(n \<mapsto> take i t))"
  have cm: "cmatches Dot = (\<lambda>x. x \<noteq> CHR 0x0A)" by (rule ext) simp
  have all: "rmatch (Seq (Group n (PlusLazy Dot)) (Opt (Group n' (Lit ''.git'')))) (t, g)
               = concat (map ?F [1..<Suc ?m])"
    by (simp only: rmatch.simps(6) rmatch_Group_Plus cm map_map comp_def)
  have F: "find ?P (?F i) =
     (if drop i t = ''.git'' then Some ([], g(n \<mapsto> take i t, n' \<mapsto> ''.git''))
      else if drop i t = [] then Some ([], g(n \<mapsto> take i t)) else None)" for i
    by (rule opt_git_find)
  show ?thesis
  proof (cases "t = [] \<or> CHR 0x0A \<in> set t")
    case True
    have "find ?P (?F i) = None" if "i \<in> set [1..<Suc ?m]" for i
    proof (cases "t = []")
      case True
      with that show ?thesis by simp
    next
      case False
      with True have nl: "CHR 0x0A \<in> set t" by simp
      then have lt: "?m < length t"
        by (rule length_takeWhile_less_mem) simp
      then have tm: "t ! ?m = CHR 0x0A"
        using nth_length_takeWhile [of "\<lambda>x. x \<noteq> CHR 0x0A" t] by simp
      from that have im: "i \<le> ?m" by auto
      with lt have "drop i t ! (?m - i) = CHR 0x0A" "?m - i < length (drop i t)"
        using tm by auto
      then have "CHR 0x0A \<in> set (drop i t)" by (metis nth_mem)
      then have "drop i t \<noteq> ''.git''" "drop i t \<noteq> []" by auto
      then show ?thesis by (simp only: F if_False)
    qed
    then have "find ?P (concat (map ?F [1..<Suc ?m])) = None"
      by (rule find_concat_map_None)
    with True all show ?thesis by (simp del: rmatch.simps upt_Suc)
  next
    case False
    then have ne: "t \<noteq> []" and nonl: "CHR 0x0A \<notin> set t" by auto
    from nonl have "takeWhile (\<lambda>x. x \<noteq> CHR 0x0A) t = t"
      by auto
    then have m: "?m = length t" by (rule arg_cong)
    from ne have pos: "0 < length t" by simp
    show ?thesis
    proof (cases "4 < length t \<and> drop (length t - 4) t = ''.git''")
      case True
      let ?i = "length t - 4"
      from True have "[1..<Suc (length t)] = [1..<?i] @ ?i # [Suc ?i..<Suc (length t)]"
        by (intro upt_split_at) arith+
      moreover have "find ?P (?F i) = None" if "i \<in> set [1..<?i]" for i
      proof -
        from that have l: "length (drop i t) \<noteq> 4" and "length (drop i t) \<noteq> 0" by auto
        then have "drop i t \<noteq> []" by fastforce
        moreover from l have "drop i t \<noteq> ''.git''" by (rule neq_git_length)
        ultimately have "drop i t \<noteq> ''.git''" "drop i t \<noteq> []" by blast+
        then show ?thesis by (simp only: F if_False)
      qed
      moreover have "find ?P (?F ?i) = Some ([], g(n \<mapsto> take ?i t, n' \<mapsto> ''.git''))"
        unfolding F using True by simp
      ultimately have "find ?P (concat (map ?F [1..<Suc (length t)])) =
          Some ([], g(n \<mapsto> take ?i t, n' \<mapsto> ''.git''))"
        using find_concat_map_first [of "[1..<?i]" ?P ?F ?i _ "[Suc ?i..<Suc (length t)]"]
        by (simp del: rmatch.simps upt_Suc)
      with True False all m show ?thesis by (simp del: rmatch.simps upt_Suc)
    next
      case nogit: False
      from pos have "1 \<le> length t" by arith
      then have "[1..<Suc (length t)] = [1..<length t] @ [length t]"
        by (rule upt_Suc_append)
      moreover have "find ?P (?F i) = None" if "i \<in> set [1..<length t]" for i
      proof -
        from that have i: "1 \<le> i" "i < length t" by auto
        then have "drop i t \<noteq> []" by simp
        moreover have "drop i t \<noteq> ''.git''"
        proof
          assume eq: "drop i t = ''.git''"
          then have "length (drop i t) = 4" by simp
          with i have "i = length t - 4" "4 < length t" by auto
          with eq nogit show False by simp
        qed
        ultimately show ?thesis by (simp only: F if_False)
      qed
      moreover have "find ?P (?F (length t)) = Some ([], g(n \<mapsto> t))"
        unfolding F by simp
      ultimately have "find ?P (concat (map ?F [1..<Suc (length t)])) = Some ([], g(n \<mapsto> t))"
        using find_concat_map_first [of "[1..<length t]" ?P ?F "length t" _ "[]"]
        by (simp del: rmatch.simps upt_Suc)
      with nogit False all m show ?thesis by (auto simp del: rmatch.simps upt_Suc)
    qed
  qed
qed

subsection \<open>The match of \<open>RE_GITHUB_URL\<close> in closed form\<close>

lemma rmatch_Seq_Lit:
  "rmatch (Seq (Lit l) r) (s, g) =
     (if take (length l) s = l then rmatch r (drop (length l) s, g) else [])"
  by simp

lemma url_regex_find:
  assumes s1: "s1 = drop (length p) s"
    and m: "m = length (takeWhile (\<lambda>x. x \<noteq> c) s1)"
    and t: "t = drop (Suc m) s1"
  shows "find (\<lambda>st. fst st = [])
     (rmatch (Seq (Lit p) (Seq (Group n (PlusGreedy (NotChar c))) (Seq (Lit [c])
        (Seq (Group n' (PlusLazy Dot)) (Opt (Group n3 (Lit ''.git''))))))) (s, g)) =
     (if take (length p) s = p \<and> 0 < m \<and> m < length s1 \<and> t \<noteq> [] \<and> CHR 0x0A \<notin> set t
      then Some ([], if 4 < length t \<and> drop (length t - 4) t = ''.git''
                     then g(n \<mapsto> take m s1, n' \<mapsto> take (length t - 4) t, n3 \<mapsto> ''.git'')
                     else g(n \<mapsto> take m s1, n' \<mapsto> t))
      else None)"
proof -
  let ?Y = "Seq (Group n' (PlusLazy Dot)) (Opt (Group n3 (Lit ''.git'')))"
  let ?R = "Seq (Lit p) (Seq (Group n (PlusGreedy (NotChar c))) (Seq (Lit [c]) ?Y))"
  have all: "rmatch ?R (s, g) =
      (if take (length p) s = p
       then (if 0 < m \<and> m < length s1 then rmatch ?Y (t, g(n \<mapsto> take m s1)) else [])
       else [])"
    unfolding s1 m t by (simp only: rmatch_Seq_Lit user_step Let_def)
  show ?thesis
  proof (cases "take (length p) s = p \<and> 0 < m \<and> m < length s1")
    case False
    then show ?thesis unfolding all by auto
  next
    case True
    then have "rmatch ?R (s, g) = rmatch ?Y (t, g(n \<mapsto> take m s1))"
      unfolding all by simp
    then have "find (\<lambda>st. fst st = []) (rmatch ?R (s, g)) =
        find (\<lambda>st. fst st = []) (rmatch ?Y (t, g(n \<mapsto> take m s1)))"
      by (rule arg_cong)
    then show ?thesis using True
      unfolding repo_step by (simp del: rmatch.simps)
  qed
qed

lemma parse_github_url_closed:
  assumes s1: "s1 = drop 19 s"
    and m: "m = length (takeWhile (\<lambda>x. x \<noteq> CHR ''/'') s1)"
    and t: "t = drop (Suc m) s1"
  shows "parse_github_url s =
     (if take 19 s = ''https://github.com/'' \<and> 0 < m \<and> m < length s1 \<and> t \<noteq> []
          \<and> CHR 0x0A \<notin> set t
      then Some (Some (take m s1), Some (strip_git t)) else None)"
proof -
  define p where "p = ''https://github.com/''"
  have len: "length p = 19" by (simp add: p_def)
  have R: "RE_GITHUB_URL = Seq (Lit p) (Seq (Group ''user'' (PlusGreedy (NotChar CHR ''/'')))
      (Seq (Lit [CHR ''/'']) (Seq (Group ''repo'' (PlusLazy Dot)) (Opt (Group ''3'' (Lit ''.git''))))))"
    by (simp add: RE_GITHUB_URL_def p_def)
  from s1 have s1': "s1 = drop (length p) s" by (simp only: len)
  show ?thesis
    unfolding parse_github_url_def fullmatch_def R url_regex_find [OF s1' m t] len
      p_def [symmetric]
    by (simp add: strip_git_def)
qed

lemma parse_github_url_shape:
  assumes "u \<noteq> []" "CHR ''/'' \<notin> set u" "t \<noteq> []" "CHR 0x0A \<notin> set t"
  shows "parse_github_url (''https://github.com/'' @ u @ CHR ''/'' # t)
           = Some (Some u, Some (strip_git t))"
proof -
  let ?s = "''https://github.com/'' @ u @ CHR ''/'' # t"
  have s1: "u @ CHR ''/'' # t = drop 19 ?s" by simp
  have m: "length u = length (takeWhile (\<lambda>x. x \<noteq> CHR ''/'') (u @ CHR ''/'' # t))"
    using assms(2) by (induction u) auto
  have t: "t = drop (Suc (length u)) (u @ CHR ''/'' # t)" by simp
  show ?thesis
    unfolding parse_github_url_closed [OF s1 m t] using assms by simp
qed

lemma parse_github_url_Some:
  assumes "parse_github_url s = Some x"
  shows "\<exists>u t. s = ''https://github.com/'' @ u @ CHR ''/'' # t \<and> u \<noteq> []
            \<and> CHR ''/'' \<notin> set u \<and> t \<noteq> [] \<and> CHR 0x0A \<notin> set t
            \<and> x = (Some u, Some (strip_git t))"
proof -
  define s1 where "s1 = drop 19 s"
  define m where "m = length (takeWhile (\<lambda>x. x \<noteq> CHR ''/'') s1)"
  define t where "t = drop (Suc m) s1"
  note closed = parse_github_url_closed [OF s1_def m_def t_def]
  from assms have pre: "take 19 s = ''https://github.com/''"
    and m: "0 < m" "m < length s1" and t: "t \<noteq> []" "CHR 0x0A \<notin> set t"
    and x: "x = (Some (take m s1), Some (strip_git t))"
    unfolding closed by (auto split: if_splits)
  have "s1 ! m = CHR ''/''"
    using m(2) nth_length_takeWhile [of "\<lambda>x. x \<noteq> CHR ''/''" s1] by (simp add: m_def)
  then have "s1 = take m s1 @ CHR ''/'' # t"
    using m(2) id_take_nth_drop [of m s1] by (simp add: t_def)
  moreover have tk: "take m s1 = takeWhile (\<lambda>x. x \<noteq> CHR ''/'') s1"
    unfolding m_def by (metis takeWhile_eq_take)
  moreover have "s = take 19 s @ s1" by (simp add: s1_def)
  ultimately have "s = ''https://github.com/'' @ take m s1 @ CHR ''/'' # t"
    using pre by metis
  moreover have "take m s1 \<noteq> []" using m by auto
  moreover have "CHR ''/'' \<notin> set (take m s1)"
    unfolding tk by (auto dest: set_takeWhileD)
  ultimately show ?thesis using t x by blast
qed

subsection \<open>\<open>split\<close> and \<open>parse_repo_name\<close>\<close>

lemma split_not_Nil: "split sep s \<noteq> []"
  by (induction s) (auto simp: Let_def)

lemma hd_split: "hd (split sep s) = takeWhile (\<lambda>c. c \<noteq> sep) s"
  by (induction s) (auto simp: Let_def)

lemma split_no_sep: "sep \<notin> set s \<Longrightarrow> split sep s = [s]"
  by (induction s) (auto simp: Let_def)

lemma split_at_first:
  "sep \<notin> set a \<Longrightarrow> split sep (a @ sep # b) = a # split sep b"
  by (induction a) (auto simp: Let_def)

lemma split_cut:
  assumes "sep \<in> set s"
  shows "split sep s =
     takeWhile (\<lambda>c. c \<noteq> sep) s # split sep (tl (dropWhile (\<lambda>c. c \<noteq> sep) s))"
proof -
  let ?a = "takeWhile (\<lambda>c. c \<noteq> sep) s" and ?d = "dropWhile (\<lambda>c. c \<noteq> sep) s"
  from assms have "?d \<noteq> []" by auto
  moreover have "hd ?d = sep" using \<open>?d \<noteq> []\<close> hd_dropWhile [of "\<lambda>c. c \<noteq> sep" s] by auto
  ultimately have "?d = sep # tl ?d" by (cases ?d) auto
  then have "s = ?a @ sep # tl ?d" by (metis takeWhile_dropWhile_id)
  moreover have "sep \<notin> set ?a" by (auto dest: set_takeWhileD)
  ultimately show ?thesis using split_at_first [of sep ?a "tl ?d"] by simp
qed

lemma getitem_0_split: "getitem (split sep s) 0 = Inr (takeWhile (\<lambda>c. c \<noteq> sep) s)"
  using split_not_Nil [of sep s] hd_split [of sep s]
  by (cases "split sep s") (auto simp: getitem_def)

lemma parse_repo_name_no_sep:
  "CHR ''_'' \<notin> set s \<Longrightarrow> parse_repo_name s = Inl IndexError"
  by (simp add: parse_repo_name_def split_no_sep getitem_def)

lemma parse_repo_name_sep:
  assumes "CHR ''_'' \<in> set s"
  shows "parse_repo_name s =
     Inr (''https://github.com/'' @ takeWhile (\<lambda>c. c \<noteq> CHR ''_'') s @ ''/''
            @ takeWhile (\<lambda>c. c \<noteq> CHR ''_'') (tl (dropWhile (\<lambda>c. c \<noteq> CHR ''_'') s)) @ ''.git'')"
proof -
  let ?r = "tl (dropWhile (\<lambda>c. c \<noteq> CHR ''_'') s)"
  have "getitem (split CHR ''_'' s) 1 = getitem (split CHR ''_'' ?r) 0"
    using split_not_Nil [of "CHR ''_''" ?r]
    by (simp add: split_cut [OF assms] getitem_def)
  then show ?thesis
    unfolding parse_repo_name_def by (simp add: getitem_0_split)
qed

subsection \<open>The stripped suffix\<close>

lemma strip_git_append: "r \<noteq> [] \<Longrightarrow> strip_git (r @ ''.git'') = r"
  by (simp add: strip_git_def)

lemma strip_git_cases: "t = strip_git t \<or> t = strip_git t @ ''.git''"
proof (cases "4 < length t \<and> drop (length t - 4) t = ''.git''")
  case True
  then have "take (length t - 4) t @ ''.git'' = t"
    by (metis append_take_drop_id)
  with True show ?thesis by (simp add: strip_git_def)
next
  case False
  then show ?thesis by (auto simp: strip_git_def)
qed

lemma strip_git_props:
  assumes "t \<noteq> []" "CHR 0x0A \<notin> set t"
  shows "strip_git t \<noteq> []" "CHR 0x0A \<notin> set (strip_git t)"
proof -
  show "strip_git t \<noteq> []" using assms(1) by (auto simp: strip_git_def)
  show "CHR 0x0A \<notin> set (strip_git t)"
    using assms(2) by (auto simp: strip_git_def dest: in_set_takeD)
qed

section \<open>The GitHub URL recognizer\<close>

text \<open>
  C1 (as amended). \<open>parse_github_url\<close> matches the whole input against
  \<open>https://github.com/<user>/<repo>\<close> with an optional \<open>.git\<close> suffix: a result
  \<open>(user, repo)\<close> means that the input is exactly that prefix, a non-empty user without
  a slash, a slash, a non-empty repo without a newline, and nothing or \<open>.git\<close> after it.
  The repo part may contain slashes, so a URL with a trailing path segment after the repo name
  is not rejected: the segment becomes part of the repo component.
\<close>

theorem parse_github_url_whole_string:
  "(parse_github_url s = Some (user, repo) \<longrightarrow>
      (\<exists>u r. user = Some u \<and> repo = Some r \<and> u \<noteq> [] \<and> CHR ''/'' \<notin> set u \<and> r \<noteq> []
             \<and> CHR 0x0A \<notin> set r
             \<and> (s = ''https://github.com/'' @ u @ ''/'' @ r
                \<or> s = ''https://github.com/'' @ u @ ''/'' @ r @ ''.git'')))
   \<and> (u \<noteq> [] \<and> CHR ''/'' \<notin> set u \<and> CHR 0x0A \<notin> set r \<and> CHR 0x0A \<notin> set x \<longrightarrow>
      (\<exists>repo'. parse_github_url (''https://github.com/'' @ u @ ''/'' @ r @ ''/'' @ x)
                  = Some (Some u, Some repo')
              \<and> (repo' = r @ ''/'' @ x \<or> repo' @ ''.git'' = r @ ''/'' @ x)))"
proof (intro conjI impI)
  assume "parse_github_url s = Some (user, repo)"
  then obtain u t where s: "s = ''https://github.com/'' @ u @ CHR ''/'' # t"
    and u: "u \<noteq> []" "CHR ''/'' \<notin> set u" and t: "t \<noteq> []" "CHR 0x0A \<notin> set t"
    and x: "(user, repo) = (Some u, Some (strip_git t))"
    using parse_github_url_Some by blast
  from strip_git_cases [of t] s
  have "s = ''https://github.com/'' @ u @ ''/'' @ strip_git t
        \<or> s = ''https://github.com/'' @ u @ ''/'' @ strip_git t @ ''.git''"
    by auto
  with u x strip_git_props [OF t]
  show "\<exists>u r. user = Some u \<and> repo = Some r \<and> u \<noteq> [] \<and> CHR ''/'' \<notin> set u \<and> r \<noteq> []
             \<and> CHR 0x0A \<notin> set r
             \<and> (s = ''https://github.com/'' @ u @ ''/'' @ r
                \<or> s = ''https://github.com/'' @ u @ ''/'' @ r @ ''.git'')"
    by blast
next
  assume a: "u \<noteq> [] \<and> CHR ''/'' \<notin> set u \<and> CHR 0x0A \<notin> set r \<and> CHR 0x0A \<notin> set x"
  let ?t = "r @ ''/'' @ x"
  from a have "parse_github_url (''https://github.com/'' @ u @ CHR ''/'' # ?t)
      = Some (Some u, Some (strip_git ?t))"
    by (intro parse_github_url_shape) auto
  moreover have "strip_git ?t = ?t \<or> strip_git ?t @ ''.git'' = ?t"
    using strip_git_cases [of ?t] by metis
  ultimately show "\<exists>repo'. parse_github_url (''https://github.com/'' @ u @ ''/'' @ r @ ''/'' @ x)
                  = Some (Some u, Some repo')
              \<and> (repo' = r @ ''/'' @ x \<or> repo' @ ''.git'' = r @ ''/'' @ x)"
    by auto
qed
text \<open>
  C1, witness: a URL with the \<open>.git\<close> suffix for the first part, and
  \<open>https://github.com/foo/bar/extra\<close> for the second.
\<close>

theorem parse_github_url_whole_string_witness:
  "(\<exists>u r. Some ''foo'' = Some u \<and> Some ''bar'' = Some r \<and> u \<noteq> [] \<and> CHR ''/'' \<notin> set u \<and> r \<noteq> []
             \<and> CHR 0x0A \<notin> set r
             \<and> (''https://github.com/foo/bar.git'' = ''https://github.com/'' @ u @ ''/'' @ r
                \<or> ''https://github.com/foo/bar.git'' = ''https://github.com/'' @ u @ ''/'' @ r @ ''.git''))
   \<and> (\<exists>repo'. parse_github_url (''https://github.com/'' @ ''foo'' @ ''/'' @ ''bar'' @ ''/'' @ ''extra'')
                  = Some (Some ''foo'', Some repo')
              \<and> (repo' = ''bar'' @ ''/'' @ ''extra'' \<or> repo' @ ''.git'' = ''bar'' @ ''/'' @ ''extra''))"
proof -
  have h1: "parse_github_url ''https://github.com/foo/bar.git'' = Some (Some ''foo'', Some ''bar'')"
    by (simp add: parse_github_url_def fullmatch_def RE_GITHUB_URL_def)
  have h2: "''foo'' \<noteq> [] \<and> CHR ''/'' \<notin> set ''foo'' \<and> CHR 0x0A \<notin> set ''bar''
      \<and> CHR 0x0A \<notin> set ''extra''" by simp
  note t = parse_github_url_whole_string
    [of "''https://github.com/foo/bar.git''" "Some ''foo''" "Some ''bar''" "''foo''" "''bar''" "''extra''"]
  from t [THEN conjunct1, rule_format, OF h1] t [THEN conjunct2, rule_format, OF h2]
  show ?thesis by (rule conjI)
qed
text \<open>
  C1, counterexample to the claim as stated: \<open>https://github.com/foo/bar/extra\<close> has a
  trailing path segment and does not give an absent result; it parses to
  \<open>("foo", "bar/extra")\<close>.
\<close>

theorem parse_github_url_trailing_segment_counterexample:
  "parse_github_url ''https://github.com/foo/bar/extra'' = Some (Some ''foo'', Some ''bar/extra'')
   \<and> parse_github_url ''https://github.com/foo/bar/extra'' \<noteq> None"
  by (simp add: parse_github_url_def fullmatch_def RE_GITHUB_URL_def)

text \<open>
  C5. On a match \<open>parse_github_url\<close> returns the pair \<open>(user, repo)\<close> without the
  \<open>.git\<close> suffix: the URL built from a user \<open>u\<close>, a repo \<open>r\<close> and \<open>.git\<close>
  parses to \<open>(u, r)\<close>, and so does the URL without the suffix (when \<open>r\<close> does not itself
  end in \<open>.git\<close>, which the pattern would read as the suffix).
  \<open>https://github.com/foo/bar.git\<close> and \<open>https://github.com/foo/bar\<close> both parse to
  \<open>("foo", "bar")\<close>, and \<open>https://example.com/foo/bar\<close> does not parse.
\<close>

theorem parse_github_url_strips_git:
  "(u \<noteq> [] \<and> CHR ''/'' \<notin> set u \<and> r \<noteq> [] \<and> CHR 0x0A \<notin> set r \<longrightarrow>
      parse_github_url (''https://github.com/'' @ u @ ''/'' @ r @ ''.git'') = Some (Some u, Some r)
      \<and> (\<not> (4 < length r \<and> drop (length r - 4) r = ''.git'') \<longrightarrow>
           parse_github_url (''https://github.com/'' @ u @ ''/'' @ r) = Some (Some u, Some r)))
   \<and> parse_github_url ''https://github.com/foo/bar.git'' = Some (Some ''foo'', Some ''bar'')
   \<and> parse_github_url ''https://github.com/foo/bar'' = Some (Some ''foo'', Some ''bar'')
   \<and> parse_github_url ''https://example.com/foo/bar'' = None"
proof (intro conjI impI)
  assume a: "u \<noteq> [] \<and> CHR ''/'' \<notin> set u \<and> r \<noteq> [] \<and> CHR 0x0A \<notin> set r"
  then have "parse_github_url (''https://github.com/'' @ u @ CHR ''/'' # (r @ ''.git''))
      = Some (Some u, Some (strip_git (r @ ''.git'')))"
    by (intro parse_github_url_shape) auto
  with a show "parse_github_url (''https://github.com/'' @ u @ ''/'' @ r @ ''.git'')
      = Some (Some u, Some r)"
    by (simp add: strip_git_append)
  assume "\<not> (4 < length r \<and> drop (length r - 4) r = ''.git'')"
  then have "strip_git r = r" by (auto simp: strip_git_def)
  moreover from a have "parse_github_url (''https://github.com/'' @ u @ CHR ''/'' # r)
      = Some (Some u, Some (strip_git r))"
    by (intro parse_github_url_shape) auto
  ultimately show "parse_github_url (''https://github.com/'' @ u @ ''/'' @ r)
      = Some (Some u, Some r)"
    by simp
qed (simp_all add: parse_github_url_def fullmatch_def RE_GITHUB_URL_def)

text \<open>
  C5, witness: user \<open>apache\<close>, repo \<open>commons-lang\<close>.
\<close>

theorem parse_github_url_strips_git_witness:
  "parse_github_url (''https://github.com/'' @ ''apache'' @ ''/'' @ ''commons-lang'' @ ''.git'')
     = Some (Some ''apache'', Some ''commons-lang'')
   \<and> parse_github_url (''https://github.com/'' @ ''apache'' @ ''/'' @ ''commons-lang'')
     = Some (Some ''apache'', Some ''commons-lang'')"
  using parse_github_url_strips_git [of "''apache''" "''commons-lang''"] by simp

text \<open>
  C7. For an input that does not match the pattern \<open>parse_github_url\<close> returns
  \<open>None\<close>; the function has no raising branch, so the result is a value in every case.
  The inputs on which it returns \<open>None\<close> are exactly those that are not of the form
  \<open>https://github.com/<user>/<rest>\<close> with a non-empty user without a slash and a non-empty
  rest without a newline.
\<close>

theorem parse_github_url_non_match:
  "(fullmatch RE_GITHUB_URL s = None \<longrightarrow> parse_github_url s = None)
   \<and> (parse_github_url s = None) =
       (\<nexists>u t. s = ''https://github.com/'' @ u @ ''/'' @ t \<and> u \<noteq> [] \<and> CHR ''/'' \<notin> set u
              \<and> t \<noteq> [] \<and> CHR 0x0A \<notin> set t)"
proof (intro conjI impI)
  assume "fullmatch RE_GITHUB_URL s = None"
  then show "parse_github_url s = None" by (simp add: parse_github_url_def)
next
  show "(parse_github_url s = None) =
       (\<nexists>u t. s = ''https://github.com/'' @ u @ ''/'' @ t \<and> u \<noteq> [] \<and> CHR ''/'' \<notin> set u
              \<and> t \<noteq> [] \<and> CHR 0x0A \<notin> set t)"
  proof
    assume none: "parse_github_url s = None"
    show "\<nexists>u t. s = ''https://github.com/'' @ u @ ''/'' @ t \<and> u \<noteq> [] \<and> CHR ''/'' \<notin> set u
              \<and> t \<noteq> [] \<and> CHR 0x0A \<notin> set t"
    proof
      assume "\<exists>u t. s = ''https://github.com/'' @ u @ ''/'' @ t \<and> u \<noteq> [] \<and> CHR ''/'' \<notin> set u
              \<and> t \<noteq> [] \<and> CHR 0x0A \<notin> set t"
      then obtain u t where "s = ''https://github.com/'' @ u @ CHR ''/'' # t" "u \<noteq> []"
        "CHR ''/'' \<notin> set u" "t \<noteq> []" "CHR 0x0A \<notin> set t" by auto
      then have "parse_github_url s = Some (Some u, Some (strip_git t))"
        using parse_github_url_shape by blast
      with none show False by simp
    qed
  next
    assume no: "\<nexists>u t. s = ''https://github.com/'' @ u @ ''/'' @ t \<and> u \<noteq> [] \<and> CHR ''/'' \<notin> set u
              \<and> t \<noteq> [] \<and> CHR 0x0A \<notin> set t"
    show "parse_github_url s = None"
    proof (cases "parse_github_url s")
      case None
      then show ?thesis .
    next
      case (Some x)
      from parse_github_url_Some [OF Some] no show ?thesis by auto
    qed
  qed
qed
text \<open>
  C7, witness: a URL on another host.
\<close>

theorem parse_github_url_non_match_witness:
  "fullmatch RE_GITHUB_URL ''https://example.com/foo/bar'' = None
   \<and> parse_github_url ''https://example.com/foo/bar'' = None"
proof -
  have h: "fullmatch RE_GITHUB_URL ''https://example.com/foo/bar'' = None"
    by (simp add: fullmatch_def RE_GITHUB_URL_def)
  from h parse_github_url_non_match [of "''https://example.com/foo/bar''", THEN conjunct1, rule_format, OF h]
  show ?thesis by (rule conjI)
qed
text \<open>
  C2 (as amended). Round trip: for every non-empty owner and non-empty repo without
  underscore and slash, the repo also without a newline, the project name \<open>owner_repo\<close>
  is turned into a clone URL by \<open>parse_repo_name\<close>, and \<open>parse_github_url\<close> gives back
  exactly \<open>(owner, repo)\<close>.
\<close>

theorem round_trip:
  assumes "owner \<noteq> []" "CHR ''_'' \<notin> set owner" "CHR ''/'' \<notin> set owner"
    and "repo \<noteq> []" "CHR ''_'' \<notin> set repo" "CHR ''/'' \<notin> set repo" "CHR 0x0A \<notin> set repo"
  shows "\<exists>url. parse_repo_name (owner @ ''_'' @ repo) = Inr url
            \<and> parse_github_url url = Some (Some owner, Some repo)"
proof -
  let ?name = "owner @ ''_'' @ repo"
  have tw: "takeWhile (\<lambda>c. c \<noteq> CHR ''_'') ?name = owner"
    using assms(2) by (induction owner) auto
  have dw: "tl (dropWhile (\<lambda>c. c \<noteq> CHR ''_'') ?name) = repo"
    using assms(2) by (induction owner) auto
  have tr: "takeWhile (\<lambda>c. c \<noteq> CHR ''_'') repo = repo"
    using assms(5) by auto
  have "CHR ''_'' \<in> set ?name" by simp
  then have url: "parse_repo_name ?name = Inr (''https://github.com/'' @ owner @ ''/'' @ repo @ ''.git'')"
    by (simp only: parse_repo_name_sep tw dw tr)
  have "parse_github_url (''https://github.com/'' @ owner @ CHR ''/'' # (repo @ ''.git''))
      = Some (Some owner, Some (strip_git (repo @ ''.git'')))"
    using assms by (intro parse_github_url_shape) auto
  then have "parse_github_url (''https://github.com/'' @ owner @ ''/'' @ repo @ ''.git'')
      = Some (Some owner, Some repo)"
    using assms(4) by (simp add: strip_git_append)
  with url show ?thesis by blast
qed
text \<open>
  C2, witness: owner \<open>apache\<close>, repo \<open>commons-lang\<close>.
\<close>

theorem round_trip_witness:
  "\<exists>url. parse_repo_name (''apache'' @ ''_'' @ ''commons-lang'') = Inr url
            \<and> parse_github_url url = Some (Some ''apache'', Some ''commons-lang'')"
  using round_trip [of "''apache''" "''commons-lang''"] by simp
text \<open>
  C2, counterexample to the claim as stated. The empty owner has no underscore and no slash,
  but \<open>_bar\<close> becomes \<open>https://github.com//bar.git\<close>, which does not parse. Likewise
  the empty repo comes back as \<open>.git\<close>, and a repo with a newline does not parse.
\<close>

theorem round_trip_counterexample:
  "CHR ''_'' \<notin> set '''' \<and> CHR ''/'' \<notin> set '''' \<and> CHR ''_'' \<notin> set ''bar'' \<and> CHR ''/'' \<notin> set ''bar''
   \<and> parse_repo_name ('''' @ ''_'' @ ''bar'') = Inr ''https://github.com//bar.git''
   \<and> parse_github_url ''https://github.com//bar.git'' = None
   \<and> parse_repo_name (''foo'' @ ''_'' @ '''') = Inr ''https://github.com/foo/.git''
   \<and> parse_github_url ''https://github.com/foo/.git'' = Some (Some ''foo'', Some ''.git'')
   \<and> parse_repo_name (''foo'' @ ''_'' @ [CHR ''a'', CHR 0x0A, CHR ''b''])
       = Inr (''https://github.com/foo/a'' @ [CHR 0x0A] @ ''b.git'')
   \<and> parse_github_url (''https://github.com/foo/a'' @ [CHR 0x0A] @ ''b.git'') = None"
  by (simp add: parse_repo_name_def getitem_def parse_github_url_def fullmatch_def RE_GITHUB_URL_def)

text \<open>
  C8. \<open>parse_repo_name\<close> raises \<open>IndexError\<close> for every project name without an
  underscore. For every project name with an underscore it returns
  \<open>https://github.com/<a>/<b>.git\<close>, where \<open>a\<close> is the text before the first
  underscore and \<open>b\<close> the text between the first underscore and the next one (or the end of
  the name when there is no second underscore).
\<close>

theorem parse_repo_name_underscore:
  "(CHR ''_'' \<notin> set project_name \<longrightarrow> parse_repo_name project_name = Inl IndexError)
   \<and> (CHR ''_'' \<in> set project_name \<longrightarrow>
        parse_repo_name project_name =
          Inr (''https://github.com/'' @ takeWhile (\<lambda>c. c \<noteq> CHR ''_'') project_name @ ''/''
               @ takeWhile (\<lambda>c. c \<noteq> CHR ''_'')
                   (tl (dropWhile (\<lambda>c. c \<noteq> CHR ''_'') project_name))
               @ ''.git''))"
  using parse_repo_name_no_sep parse_repo_name_sep by blast
text \<open>
  C8, witness: a name without underscore, one with two and one with a single underscore.
\<close>

theorem parse_repo_name_underscore_witness:
  "parse_repo_name ''foobar'' = Inl IndexError
   \<and> parse_repo_name ''foo_bar_baz'' = Inr ''https://github.com/foo/bar.git''
   \<and> parse_repo_name ''foo_bar'' = Inr ''https://github.com/foo/bar.git''"
  using parse_repo_name_underscore [of "''foobar''"] parse_repo_name_underscore [of "''foo_bar_baz''"]
    parse_repo_name_underscore [of "''foo_bar''"]
  by simp

section \<open>The dependency-version gate\<close>

lemma check_deps_passed_over:
  "passed_over reqs d \<Longrightarrow> check_deps reqs (d # ds) = check_deps reqs ds"
  by (auto simp: passed_over_def split: option.splits)

lemma check_deps_prefix:
  "\<forall>x\<in>set pre. passed_over reqs x \<Longrightarrow> check_deps reqs (pre @ ds) = check_deps reqs ds"
  by (induction pre) (simp_all add: check_deps_passed_over del: check_deps.simps(2))

lemma truth_value: "(case r of Inl e \<Rightarrow> Inl e | Inr b \<Rightarrow> if b then Inr True else Inr False) = r"
  by (cases r) auto

lemma check_deps_match:
  assumes "artifact_requirement reqs d = Some p"
  shows "check_deps reqs (d # ds) =
     (case version_text d of
        None \<Rightarrow> Inl AttributeError
      | Some v \<Rightarrow> p (takeWhile (\<lambda>c. c \<noteq> CHR ''.'') v))"
  using assms
  by (auto simp: artifact_requirement_def version_text_def getitem_0_split truth_value
           split: option.splits)

lemma check_deps_no_artifact:
  "find_child ''artifactId'' d = None \<Longrightarrow> check_deps reqs (d # ds) = Inl AttributeError"
  by simp

lemma dependency_cases:
  obtains (absent) "find_child ''artifactId'' d = None"
  | (skip) "passed_over reqs d"
  | (match) p where "artifact_requirement reqs d = Some p"
  by (cases "find_child ''artifactId'' d")
     (auto simp: passed_over_def artifact_requirement_def)

lemmas junit_eval = check_junit_def REQUIREMENTS_def project_def dependency_def
  dependency_without_version_def findall_descendants_def find_child_def xmlns_def requirement_def
  getitem_def py_int_def py_isspace_def py_isdigit_def digit_value_def
  passed_over_def artifact_requirement_def version_text_def

lemma mem_dropWhile: "x \<in> set xs \<Longrightarrow> \<not> P x \<Longrightarrow> x \<in> set (dropWhile P xs)"
  by (induction xs) auto

lemma py_int_rejects:
  assumes "c \<in> set tok" "\<not> py_isdigit c" "\<not> py_isspace c"
    and "c \<noteq> CHR ''+''" "c \<noteq> CHR ''-''" "c \<noteq> CHR ''_''"
  shows "py_int tok = Inl ValueError"
proof -
  define s1 where "s1 = dropWhile py_isspace tok"
  define s2 where "s2 = (if s1 \<noteq> [] \<and> (hd s1 = CHR ''+'' \<or> hd s1 = CHR ''-'') then tl s1 else s1)"
  define rest where "rest = dropWhile (\<lambda>c. py_isdigit c \<or> c = CHR ''_'') s2"
  have c1: "c \<in> set s1" unfolding s1_def using assms(1,3) by (rule mem_dropWhile)
  have c2: "c \<in> set s2"
  proof (cases "s1 \<noteq> [] \<and> (hd s1 = CHR ''+'' \<or> hd s1 = CHR ''-'')")
    case True
    then have "s1 = hd s1 # tl s1" "c \<noteq> hd s1" using assms(4,5) by auto
    with c1 have "c \<in> set (tl s1)" by (metis set_ConsD)
    with True show ?thesis by (simp add: s2_def)
  next
    case False
    with c1 show ?thesis by (auto simp: s2_def)
  qed
  have "c \<in> set rest" unfolding rest_def using c2 assms(2,6) by (intro mem_dropWhile) auto
  with assms(3) have "\<not> list_all py_isspace rest" by (auto simp: list_all_iff)
  then show ?thesis
    unfolding py_int_def Let_def rest_def s2_def s1_def by simp
qed

lemma REQUIREMENTS_Some:
  "artifact_requirement REQUIREMENTS d = Some p \<Longrightarrow>
     p = (\<lambda>v. case py_int v of Inl e \<Rightarrow> Inl e | Inr n \<Rightarrow> Inr (n = 4))"
  by (auto simp: artifact_requirement_def requirement_def REQUIREMENTS_def
           split: option.splits if_splits)

lemma check_deps_drop_passed_over:
  "passed_over reqs d \<Longrightarrow> check_deps reqs (pre @ d # post) = check_deps reqs (pre @ post)"
  by (induction pre) (auto simp: passed_over_def split: option.splits sum.splits)

lemma check_deps_raises_iff:
  "(\<exists>e. check_deps reqs ds = Inl e) \<longleftrightarrow>
     (\<exists>pre d post. ds = pre @ d # post \<and> (\<forall>x\<in>set pre. passed_over reqs x)
        \<and> (find_child ''artifactId'' d = None
           \<or> (\<exists>p. artifact_requirement reqs d = Some p
                \<and> (version_text d = None
                   \<or> (\<exists>v e. version_text d = Some v
                         \<and> p (takeWhile (\<lambda>c. c \<noteq> CHR ''.'') v) = Inl e)))))"
  (is "?L ds \<longleftrightarrow> ?R ds")
proof
  assume "?R ds"
  then obtain pre d post where ds: "ds = pre @ d # post"
    and pre: "\<forall>x\<in>set pre. passed_over reqs x"
    and d: "find_child ''artifactId'' d = None
           \<or> (\<exists>p. artifact_requirement reqs d = Some p
                \<and> (version_text d = None
                   \<or> (\<exists>v e. version_text d = Some v
                         \<and> p (takeWhile (\<lambda>c. c \<noteq> CHR ''.'') v) = Inl e)))"
    by blast
  have "check_deps reqs ds = check_deps reqs (d # post)"
    unfolding ds using pre by (rule check_deps_prefix)
  moreover have "\<exists>e. check_deps reqs (d # post) = Inl e"
    using d by (auto simp: check_deps_no_artifact check_deps_match simp del: check_deps.simps(2))
  ultimately show "?L ds" by simp
next
  show "?L ds \<Longrightarrow> ?R ds"
  proof (induction ds)
    case Nil
    then show ?case by simp
  next
    case (Cons d ds)
    show ?case
    proof (cases d rule: dependency_cases [where reqs = reqs])
      case absent
      then have "d # ds = [] @ d # ds \<and> (\<forall>x\<in>set []. passed_over reqs x)
          \<and> find_child ''artifactId'' d = None" by simp
      then show ?thesis by blast
    next
      case skip
      with Cons.prems have "?L ds" by (simp add: check_deps_passed_over del: check_deps.simps(2))
      then have "?R ds" by (rule Cons.IH)
      then obtain pre d' post where ds: "ds = pre @ d' # post"
        and pre: "\<forall>x\<in>set pre. passed_over reqs x"
        and d': "find_child ''artifactId'' d' = None
           \<or> (\<exists>p. artifact_requirement reqs d' = Some p
                \<and> (version_text d' = None
                   \<or> (\<exists>v e. version_text d' = Some v
                         \<and> p (takeWhile (\<lambda>c. c \<noteq> CHR ''.'') v) = Inl e)))"
        by blast
      from ds pre skip have "d # ds = (d # pre) @ d' # post \<and> (\<forall>x\<in>set (d # pre). passed_over reqs x)"
        by simp
      with d' show ?thesis by blast
    next
      case (match p)
      from Cons.prems obtain e where e: "check_deps reqs (d # ds) = Inl e" by blast
      have "version_text d = None
          \<or> (\<exists>v e. version_text d = Some v \<and> p (takeWhile (\<lambda>c. c \<noteq> CHR ''.'') v) = Inl e)"
        using e unfolding check_deps_match [OF match] by (cases "version_text d") auto
      with match have "d # ds = [] @ d # ds \<and> (\<forall>x\<in>set []. passed_over reqs x)
          \<and> (\<exists>p. artifact_requirement reqs d = Some p
                \<and> (version_text d = None
                   \<or> (\<exists>v e. version_text d = Some v
                         \<and> p (takeWhile (\<lambda>c. c \<noteq> CHR ''.'') v) = Inl e)))" by simp
      then show ?thesis by blast
    qed
  qed
qed

text \<open>
  C3. In the list of dependency elements of the document, let the first one whose artifact
  identifier is a key of the table have the predicate \<open>p\<close> and the version \<open>v\<close>, all
  dependencies before it being passed over. Then \<open>check_junit\<close> returns what \<open>p\<close> says
  about the major-version token of \<open>v\<close>: true if the predicate succeeds, false if it fails,
  whatever dependencies follow. When every dependency is passed over it returns false.
  With an unrelated artifact followed by \<open>junit\<close> \<open>4.13\<close> it returns true, with
  \<open>junit\<close> \<open>3.8\<close> false.
\<close>

theorem check_junit_first_match:
  "(findall_descendants ''dependency'' root = pre @ d # post
      \<and> (\<forall>x\<in>set pre. passed_over reqs x)
      \<and> artifact_requirement reqs d = Some p \<and> version_text d = Some v
      \<and> p (takeWhile (\<lambda>c. c \<noteq> CHR ''.'') v) = Inr b
    \<longrightarrow> check_junit reqs (Inr root) = Inr b)
   \<and> ((\<forall>x\<in>set (findall_descendants ''dependency'' root). passed_over reqs x)
    \<longrightarrow> check_junit reqs (Inr root) = Inr False)
   \<and> check_junit REQUIREMENTS
        (Inr (project [dependency ''guava'' ''30.1'', dependency ''junit'' ''4.13''])) = Inr True
   \<and> check_junit REQUIREMENTS
        (Inr (project [dependency ''guava'' ''30.1'', dependency ''junit'' ''3.8''])) = Inr False"
proof (intro conjI impI)
  assume a: "findall_descendants ''dependency'' root = pre @ d # post
      \<and> (\<forall>x\<in>set pre. passed_over reqs x)
      \<and> artifact_requirement reqs d = Some p \<and> version_text d = Some v
      \<and> p (takeWhile (\<lambda>c. c \<noteq> CHR ''.'') v) = Inr b"
  then have "check_junit reqs (Inr root) = check_deps reqs (d # post)"
    by (simp add: check_junit_def check_deps_prefix del: check_deps.simps(2))
  also have "\<dots> = Inr b" using a by (simp add: check_deps_match del: check_deps.simps(2))
  finally show "check_junit reqs (Inr root) = Inr b" .
next
  assume "\<forall>x\<in>set (findall_descendants ''dependency'' root). passed_over reqs x"
  then have "check_deps reqs (findall_descendants ''dependency'' root @ []) = check_deps reqs []"
    by (rule check_deps_prefix)
  then show "check_junit reqs (Inr root) = Inr False" by (simp add: check_junit_def)
qed (simp_all add: junit_eval)

text \<open>
  C3, witness: the first match \<open>junit\<close> \<open>4.13\<close> decides, although a later
  \<open>junit\<close> \<open>3.8\<close> would fail; and a document without any matching dependency.
\<close>

theorem check_junit_first_match_witness:
  "check_junit REQUIREMENTS
     (Inr (project [dependency ''guava'' ''30.1'', dependency ''junit'' ''4.13'',
                    dependency ''junit'' ''3.8''])) = Inr True
   \<and> check_junit REQUIREMENTS (Inr (project [dependency ''guava'' ''30.1''])) = Inr False"
proof -
  let ?p = "\<lambda>v. case py_int v of Inl e \<Rightarrow> Inl e | Inr n \<Rightarrow> Inr (n = 4)"
  let ?root = "project [dependency ''guava'' ''30.1'', dependency ''junit'' ''4.13'',
                    dependency ''junit'' ''3.8'']"
  have h1: "findall_descendants ''dependency'' ?root
        = [dependency ''guava'' ''30.1''] @ dependency ''junit'' ''4.13'' # [dependency ''junit'' ''3.8'']
      \<and> (\<forall>x\<in>set [dependency ''guava'' ''30.1'']. passed_over REQUIREMENTS x)
      \<and> artifact_requirement REQUIREMENTS (dependency ''junit'' ''4.13'') = Some ?p
      \<and> version_text (dependency ''junit'' ''4.13'') = Some ''4.13''
      \<and> ?p (takeWhile (\<lambda>c. c \<noteq> CHR ''.'') ''4.13'') = Inr True"
    by (simp add: junit_eval)
  have h2: "\<forall>x\<in>set (findall_descendants ''dependency'' (project [dependency ''guava'' ''30.1''])).
      passed_over REQUIREMENTS x"
    by (simp add: junit_eval)
  from check_junit_first_match [THEN conjunct1, THEN mp, OF h1]
    check_junit_first_match [THEN conjunct2, THEN conjunct1, THEN mp, OF h2]
  show ?thesis by (rule conjI)
qed

text \<open>
  C4. For the first dependency whose artifact identifier is a key, with version text \<open>v\<close>,
  the result of \<open>check_junit\<close> is the result of the selected predicate on the text of \<open>v\<close>
  before its first \<open>.\<close> (all of \<open>v\<close> when it has none), for every table and every
  predicate: the predicate is applied to exactly that token.
\<close>

theorem check_junit_major_version_token:
  assumes "findall_descendants ''dependency'' root = pre @ d # post"
    and "\<forall>x\<in>set pre. passed_over reqs x"
    and "artifact_requirement reqs d = Some p"
    and "version_text d = Some v"
  shows "check_junit reqs (Inr root) = p (takeWhile (\<lambda>c. c \<noteq> CHR ''.'') v)"
proof -
  from assms(1,2) have "check_junit reqs (Inr root) = check_deps reqs (d # post)"
    by (simp add: check_junit_def check_deps_prefix del: check_deps.simps(2))
  also have "\<dots> = p (takeWhile (\<lambda>c. c \<noteq> CHR ''.'') v)"
    using assms(3,4) by (simp add: check_deps_match del: check_deps.simps(2))
  finally show ?thesis .
qed

text \<open>
  C4, witness: a table whose predicate compares the token with \<open>4\<close>, on version
  \<open>4.13.2\<close>.
\<close>

theorem check_junit_major_version_token_witness:
  "check_junit [''junit'' \<mapsto> (\<lambda>token. Inr (token = ''4''))]
     (Inr (project [dependency ''guava'' ''30.1'', dependency ''junit'' ''4.13.2'']))
   = Inr (takeWhile (\<lambda>c. c \<noteq> CHR ''.'') ''4.13.2'' = ''4'')"
proof -
  let ?p = "\<lambda>token::string. (Inr (token = ''4'') :: error + bool)"
  let ?reqs = "[''junit'' \<mapsto> ?p]"
  have h1: "findall_descendants ''dependency''
       (project [dependency ''guava'' ''30.1'', dependency ''junit'' ''4.13.2''])
     = [dependency ''guava'' ''30.1''] @ dependency ''junit'' ''4.13.2'' # []"
    by (simp add: junit_eval)
  have h2: "\<forall>x\<in>set [dependency ''guava'' ''30.1'']. passed_over ?reqs x"
    by (simp add: junit_eval)
  have h3: "artifact_requirement ?reqs (dependency ''junit'' ''4.13.2'') = Some ?p"
    by (simp add: junit_eval)
  have h4: "version_text (dependency ''junit'' ''4.13.2'') = Some ''4.13.2''"
    by (simp add: junit_eval)
  show ?thesis by (rule check_junit_major_version_token [OF h1 h2 h3 h4])
qed

text \<open>
  C9. When the first dependency whose artifact identifier is a key of \<open>REQUIREMENTS\<close> has
  a version whose major-version token is rejected by \<open>int\<close>, \<open>check_junit\<close> raises
  \<open>ValueError\<close> instead of returning false. \<open>int\<close> rejects every token that has a
  character other than a digit, a sign, an underscore or white space, so the Maven placeholder
  \<open>${junit.version}\<close>, with the token \<open>${junit\<close>, raises.
\<close>

theorem check_junit_int_conversion_error:
  "(findall_descendants ''dependency'' root = pre @ d # post
      \<and> (\<forall>x\<in>set pre. passed_over REQUIREMENTS x)
      \<and> artifact_requirement REQUIREMENTS d \<noteq> None \<and> version_text d = Some v
      \<and> py_int (takeWhile (\<lambda>c. c \<noteq> CHR ''.'') v) = Inl ValueError
    \<longrightarrow> check_junit REQUIREMENTS (Inr root) = Inl ValueError)
   \<and> ((\<exists>c\<in>set tok. \<not> py_isdigit c \<and> \<not> py_isspace c
                    \<and> c \<noteq> CHR ''+'' \<and> c \<noteq> CHR ''-'' \<and> c \<noteq> CHR ''_'')
    \<longrightarrow> py_int tok = Inl ValueError)
   \<and> check_junit REQUIREMENTS
        (Inr (project [dependency ''guava'' ''30.1'', dependency ''junit'' ''${junit.version}'']))
       = Inl ValueError"
proof (intro conjI impI)
  assume a: "findall_descendants ''dependency'' root = pre @ d # post
      \<and> (\<forall>x\<in>set pre. passed_over REQUIREMENTS x)
      \<and> artifact_requirement REQUIREMENTS d \<noteq> None \<and> version_text d = Some v
      \<and> py_int (takeWhile (\<lambda>c. c \<noteq> CHR ''.'') v) = Inl ValueError"
  then obtain p where p: "artifact_requirement REQUIREMENTS d = Some p" by auto
  from a have "check_junit REQUIREMENTS (Inr root) = check_deps REQUIREMENTS (d # post)"
    by (simp add: check_junit_def check_deps_prefix del: check_deps.simps(2))
  also have "\<dots> = p (takeWhile (\<lambda>c. c \<noteq> CHR ''.'') v)"
    using a p by (simp add: check_deps_match del: check_deps.simps(2))
  also have "\<dots> = Inl ValueError"
    using a by (simp add: REQUIREMENTS_Some [OF p])
  finally show "check_junit REQUIREMENTS (Inr root) = Inl ValueError" .
next
  assume "\<exists>c\<in>set tok. \<not> py_isdigit c \<and> \<not> py_isspace c
                    \<and> c \<noteq> CHR ''+'' \<and> c \<noteq> CHR ''-'' \<and> c \<noteq> CHR ''_''"
  then show "py_int tok = Inl ValueError" using py_int_rejects by blast
qed (simp add: junit_eval)

text \<open>
  C9, witness: a placeholder version on the first \<open>junit\<close> dependency, after a dependency
  that is passed over and before a \<open>junit\<close> dependency with a version that would pass.
\<close>

theorem check_junit_int_conversion_error_witness:
  "check_junit REQUIREMENTS
     (Inr (project [dependency ''junit-dep'' ''4.11'', dependency ''junit'' ''${junit.version}'',
                    dependency ''junit'' ''4.13''])) = Inl ValueError
   \<and> py_int ''${junit'' = Inl ValueError"
proof -
  let ?root = "project [dependency ''junit-dep'' ''4.11'', dependency ''junit'' ''${junit.version}'',
                    dependency ''junit'' ''4.13'']"
  have h1: "findall_descendants ''dependency'' ?root
        = [dependency ''junit-dep'' ''4.11''] @ dependency ''junit'' ''${junit.version}''
            # [dependency ''junit'' ''4.13'']
      \<and> (\<forall>x\<in>set [dependency ''junit-dep'' ''4.11'']. passed_over REQUIREMENTS x)
      \<and> artifact_requirement REQUIREMENTS (dependency ''junit'' ''${junit.version}'') \<noteq> None
      \<and> version_text (dependency ''junit'' ''${junit.version}'') = Some ''${junit.version}''
      \<and> py_int (takeWhile (\<lambda>c. c \<noteq> CHR ''.'') ''${junit.version}'') = Inl ValueError"
    by (simp add: junit_eval)
  have h2: "\<exists>c\<in>set ''${junit''. \<not> py_isdigit c \<and> \<not> py_isspace c
                    \<and> c \<noteq> CHR ''+'' \<and> c \<noteq> CHR ''-'' \<and> c \<noteq> CHR ''_''"
    by (simp add: py_isdigit_def py_isspace_def)
  from check_junit_int_conversion_error [THEN conjunct1, THEN mp, OF h1]
    check_junit_int_conversion_error [THEN conjunct2, THEN conjunct1, THEN mp, OF h2]
  show ?thesis by (rule conjI)
qed

text \<open>
  C10. A dependency that is passed over (its artifact identifier is no key) contributes
  nothing but its \<open>artifactId\<close> child: replacing it by any element with the same
  \<open>artifactId\<close> lookup, for instance one whose \<open>version\<close> child is missing or
  malformed, changes neither the returned boolean nor whether an error is raised, and the
  result is that of the list without this dependency.
\<close>

theorem check_junit_ignores_other_versions:
  assumes "findall_descendants ''dependency'' root = pre @ d # post"
    and "findall_descendants ''dependency'' root' = pre @ d' # post"
    and "passed_over reqs d"
    and "find_child ''artifactId'' d' = find_child ''artifactId'' d"
  shows "check_junit reqs (Inr root') = check_junit reqs (Inr root)
         \<and> check_junit reqs (Inr root) = check_deps reqs (pre @ post)"
proof -
  from assms(3,4) have "passed_over reqs d'" by (simp add: passed_over_def)
  with assms(2) have "check_junit reqs (Inr root') = check_deps reqs (pre @ post)"
    by (simp add: check_junit_def check_deps_drop_passed_over)
  moreover from assms(1,3) have "check_junit reqs (Inr root) = check_deps reqs (pre @ post)"
    by (simp add: check_junit_def check_deps_drop_passed_over)
  ultimately show ?thesis by simp
qed

text \<open>
  C10, witness: the unrelated dependency with and without its \<open>version\<close> child.
\<close>

theorem check_junit_ignores_other_versions_witness:
  "check_junit REQUIREMENTS
     (Inr (project [dependency_without_version ''guava'', dependency ''junit'' ''4.13'']))
   = check_junit REQUIREMENTS
       (Inr (project [dependency ''guava'' ''30.1'', dependency ''junit'' ''4.13'']))
   \<and> check_junit REQUIREMENTS
       (Inr (project [dependency ''guava'' ''30.1'', dependency ''junit'' ''4.13'']))
     = check_deps REQUIREMENTS ([] @ [dependency ''junit'' ''4.13''])"
proof -
  have h1: "findall_descendants ''dependency''
        (project [dependency ''guava'' ''30.1'', dependency ''junit'' ''4.13''])
      = [] @ dependency ''guava'' ''30.1'' # [dependency ''junit'' ''4.13'']"
    by (simp add: junit_eval)
  have h2: "findall_descendants ''dependency''
        (project [dependency_without_version ''guava'', dependency ''junit'' ''4.13''])
      = [] @ dependency_without_version ''guava'' # [dependency ''junit'' ''4.13'']"
    by (simp add: junit_eval)
  have h3: "passed_over REQUIREMENTS (dependency ''guava'' ''30.1'')"
    by (simp add: junit_eval)
  have h4: "find_child ''artifactId'' (dependency_without_version ''guava'')
      = find_child ''artifactId'' (dependency ''guava'' ''30.1'')"
    by (simp add: junit_eval)
  show ?thesis by (rule check_junit_ignores_other_versions [OF h1 h2 h3 h4])
qed

text \<open>
  C6 (as amended). \<open>check_junit\<close> raises an error exactly when the document is malformed
  (the parser raised), or when, among the dependencies in document order up to and including
  the first one whose artifact identifier is a key, one has no \<open>artifactId\<close> child, or
  that first matching one has no \<open>version\<close> child, a \<open>version\<close> child without text,
  or a major-version token on which the predicate raises (for \<open>REQUIREMENTS\<close>: one that
  \<open>int\<close> rejects). In every other case it returns a boolean.
\<close>

theorem check_junit_raises_iff:
  "(\<exists>e. check_junit reqs parsed = Inl e) \<longleftrightarrow>
     (\<exists>e. parsed = Inl e)
     \<or> (\<exists>root pre d post. parsed = Inr root
          \<and> findall_descendants ''dependency'' root = pre @ d # post
          \<and> (\<forall>x\<in>set pre. passed_over reqs x)
          \<and> (find_child ''artifactId'' d = None
             \<or> (\<exists>p. artifact_requirement reqs d = Some p
                  \<and> (version_text d = None
                     \<or> (\<exists>v e. version_text d = Some v
                           \<and> p (takeWhile (\<lambda>c. c \<noteq> CHR ''.'') v) = Inl e)))))"
proof (cases parsed)
  case (Inl e)
  then show ?thesis by (simp add: check_junit_def)
next
  case (Inr root)
  then show ?thesis
    using check_deps_raises_iff [of reqs "findall_descendants ''dependency'' root"]
    by (simp add: check_junit_def)
qed

text \<open>
  C6, witness: a matching dependency without \<open>version\<close> child, and a document that the
  parser rejects.
\<close>

theorem check_junit_raises_iff_witness:
  "(\<exists>e. check_junit REQUIREMENTS
        (Inr (project [dependency ''guava'' ''30.1'', dependency_without_version ''junit''])) = Inl e)
   \<and> (\<exists>e. check_junit REQUIREMENTS (Inl ParseError) = Inl e)"
proof -
  let ?p = "\<lambda>v. case py_int v of Inl e \<Rightarrow> Inl e | Inr n \<Rightarrow> Inr (n = 4)"
  let ?root = "project [dependency ''guava'' ''30.1'', dependency_without_version ''junit'']"
  have "(Inr ?root :: error + element) = Inr ?root
          \<and> findall_descendants ''dependency'' ?root
              = [dependency ''guava'' ''30.1''] @ dependency_without_version ''junit'' # []
          \<and> (\<forall>x\<in>set [dependency ''guava'' ''30.1'']. passed_over REQUIREMENTS x)
          \<and> (find_child ''artifactId'' (dependency_without_version ''junit'') = None
             \<or> (\<exists>p. artifact_requirement REQUIREMENTS (dependency_without_version ''junit'') = Some p
                  \<and> (version_text (dependency_without_version ''junit'') = None
                     \<or> (\<exists>v e. version_text (dependency_without_version ''junit'') = Some v
                           \<and> p (takeWhile (\<lambda>c. c \<noteq> CHR ''.'') v) = Inl e))))"
    by (simp add: junit_eval)
  then have r1: "(\<exists>e. (Inr ?root :: error + element) = Inl e)
     \<or> (\<exists>root pre d post. (Inr ?root :: error + element) = Inr root
          \<and> findall_descendants ''dependency'' root = pre @ d # post
          \<and> (\<forall>x\<in>set pre. passed_over REQUIREMENTS x)
          \<and> (find_child ''artifactId'' d = None
             \<or> (\<exists>p. artifact_requirement REQUIREMENTS d = Some p
                  \<and> (version_text d = None
                     \<or> (\<exists>v e. version_text d = Some v
                           \<and> p (takeWhile (\<lambda>c. c \<noteq> CHR ''.'') v) = Inl e)))))"
    by blast
  have r2: "(\<exists>e. (Inl ParseError :: error + element) = Inl e)
     \<or> (\<exists>root pre d post. (Inl ParseError :: error + element) = Inr root
          \<and> findall_descendants ''dependency'' root = pre @ d # post
          \<and> (\<forall>x\<in>set pre. passed_over REQUIREMENTS x)
          \<and> (find_child ''artifactId'' d = None
             \<or> (\<exists>p. artifact_requirement REQUIREMENTS d = Some p
                  \<and> (version_text d = None
                     \<or> (\<exists>v e. version_text d = Some v
                           \<and> p (takeWhile (\<lambda>c. c \<noteq> CHR ''.'') v) = Inl e)))))"
    by simp
  from check_junit_raises_iff [THEN iffD2, OF r1] check_junit_raises_iff [THEN iffD2, OF r2]
  show ?thesis by (rule conjI)
qed

text \<open>
  C6, counterexample to the claim as stated. A well-formed document in which every dependency
  has both children raises \<open>ValueError\<close> on a placeholder version; and a matching
  dependency without \<open>version\<close> child raises nothing when an earlier match has already
  decided.
\<close>

theorem check_junit_raises_counterexample:
  "check_junit REQUIREMENTS
     (Inr (project [dependency ''guava'' ''30.1'', dependency ''junit'' ''${junit.version}'']))
     = Inl ValueError
   \<and> find_child ''artifactId'' (dependency ''junit'' ''${junit.version}'') \<noteq> None
   \<and> find_child ''version'' (dependency ''junit'' ''${junit.version}'') \<noteq> None
   \<and> find_child ''artifactId'' (dependency ''guava'' ''30.1'') \<noteq> None
   \<and> find_child ''version'' (dependency ''guava'' ''30.1'') \<noteq> None
   \<and> check_junit REQUIREMENTS
       (Inr (project [dependency ''junit'' ''4.13'', dependency_without_version ''junit'']))
     = Inr True
   \<and> artifact_requirement REQUIREMENTS (dependency_without_version ''junit'') \<noteq> None
   \<and> find_child ''version'' (dependency_without_version ''junit'') = None"
  by (simp add: junit_eval)

end
